theory Spec2Isabelle
  imports Main "HOL-Library.Sublist"
begin

section \<open>Strings and characters\<close>

text \<open>
  A Python \<open>str\<close> is modelled as a \<open>string\<close>: each \<open>char\<close> stands for the code
  point with the same number, so the model covers texts whose code points lie in
  U+0000..U+00FF, and \<open>length\<close> counts code points as Python's \<open>len\<close> does.
\<close>

definition isspace :: "char \<Rightarrow> bool" where
  \<comment> \<open>The characters that \<open>\s\<close> matches and that \<open>str.strip()\<close> removes: TAB, LF, VT, FF,
      CR, FS, GS, RS, US, SPACE, NEL and NBSP.\<close>
  "isspace c =
     (let n = (of_char c :: nat)
      in (9 \<le> n \<and> n \<le> 13) \<or> (28 \<le> n \<and> n \<le> 32) \<or> n = 133 \<or> n = 160)"

definition LF :: char where
  "LF = CHR 0x0A"

definition CR :: char where
  "CR = CHR 0x0D"

definition TAB :: char where
  "TAB = CHR 0x09"

definition is_newline :: "char \<Rightarrow> bool" where
  \<comment> \<open>the character class of \<open>\n{2,}\<close>\<close>
  "is_newline c = (c = LF)"

definition is_blank :: "char \<Rightarrow> bool" where
  \<comment> \<open>the character class \<open>[ \t]\<close>\<close>
  "is_blank c = (c = CHR '' '' \<or> c = TAB)"

definition is_terminal :: "char \<Rightarrow> bool" where
  \<comment> \<open>the character class \<open>[.!?]\<close>\<close>
  "is_terminal c = (c = CHR ''.'' \<or> c = CHR ''!'' \<or> c = CHR ''?'')"

definition is_word_char :: "char \<Rightarrow> bool" where
  \<comment> \<open>the character class \<open>[a-zA-Z0-9']\<close>\<close>
  "is_word_char c =
     (let n = (of_char c :: nat)
      in (97 \<le> n \<and> n \<le> 122) \<or> (65 \<le> n \<and> n \<le> 90) \<or> (48 \<le> n \<and> n \<le> 57) \<or> n = 39)"

definition lower_char :: "char \<Rightarrow> char" where
  \<comment> \<open>\<open>str.lower()\<close> on one code point below U+0100\<close>
  "lower_char c =
     (let n = (of_char c :: nat)
      in if (65 \<le> n \<and> n \<le> 90) \<or> (192 \<le> n \<and> n \<le> 214) \<or> (216 \<le> n \<and> n \<le> 222)
         then char_of (n + 32) else c)"

definition lower :: "string \<Rightarrow> string" where
  "lower s = map lower_char s"

definition strip :: "string \<Rightarrow> string" where
  \<comment> \<open>\<open>s.strip()\<close>\<close>
  "strip s = rev (dropWhile isspace (rev (dropWhile isspace s)))"

definition replace_char :: "char \<Rightarrow> char \<Rightarrow> string \<Rightarrow> string" where
  \<comment> \<open>\<open>s.replace(a, b)\<close> for one-character \<open>a\<close> and \<open>b\<close>\<close>
  "replace_char a b s = map (\<lambda>c. if c = a then b else c) s"

fun join :: "string \<Rightarrow> string list \<Rightarrow> string" where
  \<comment> \<open>\<open>sep.join(xs)\<close>\<close>
  "join sep [] = []"
| "join sep [x] = x"
| "join sep (x # y # ys) = x @ sep @ join sep (y # ys)"

section \<open>The regular expressions of the source\<close>

text \<open>
  \<open>re.sub(C{k,}, rep, s)\<close> for a character class \<open>C\<close> and \<open>k \<ge> 1\<close>: scanning from the
  left, a maximal run of at least \<open>k\<close> characters of the class is replaced by \<open>rep\<close>; a
  shorter run is copied.
\<close>

function re_sub_runs :: "nat \<Rightarrow> (char \<Rightarrow> bool) \<Rightarrow> string \<Rightarrow> string \<Rightarrow> string" where
  "re_sub_runs k C rep [] = []"
| "re_sub_runs k C rep (c # cs) =
     (if C c \<and> k \<le> Suc (length (takeWhile C cs))
      then rep @ re_sub_runs k C rep (dropWhile C cs)
      else c # re_sub_runs k C rep cs)"
  by pat_completeness auto
termination
  by (relation "measure (\<lambda>(k, C, rep, s). length s)")
     (auto simp: le_imp_less_Suc length_dropWhile_le)

text \<open>
  \<open>re.split(r"(?<=[.!?])\s+", s)\<close>: \<open>prev\<close> tells whether the character before the
  current position is a sentence terminal, \<open>acc\<close> is the fragment read so far.
\<close>

function re_split_go :: "bool \<Rightarrow> string \<Rightarrow> string \<Rightarrow> string list" where
  "re_split_go prev acc [] = [acc]"
| "re_split_go prev acc (c # cs) =
     (if prev \<and> isspace c
      then acc # re_split_go False [] (dropWhile isspace cs)
      else re_split_go (is_terminal c) (acc @ [c]) cs)"
  by pat_completeness auto
termination
  by (relation "measure (\<lambda>(prev, acc, s). length s)")
     (auto simp: le_imp_less_Suc length_dropWhile_le)

definition re_split_sentences :: "string \<Rightarrow> string list" where
  "re_split_sentences s = re_split_go False [] s"

text \<open>\<open>re.findall(C+, s)\<close>: the maximal runs of characters of the class, left to right.\<close>

function re_findall_runs :: "(char \<Rightarrow> bool) \<Rightarrow> string \<Rightarrow> string list" where
  "re_findall_runs C [] = []"
| "re_findall_runs C (c # cs) =
     (if C c then (c # takeWhile C cs) # re_findall_runs C (dropWhile C cs)
      else re_findall_runs C cs)"
  by pat_completeness auto
termination
  by (relation "measure (\<lambda>(C, s). length s)")
     (auto simp: le_imp_less_Suc length_dropWhile_le)

section \<open>Helpers of app.py\<close>

definition clean_text :: "string \<Rightarrow> string" where
  "clean_text text =
     (let text1 = replace_char CR LF text;
          text2 = re_sub_runs 2 is_newline [LF] text1;
          text3 = re_sub_runs 2 is_blank '' '' text2
      in strip text3)"

definition collapse_whitespace :: "string \<Rightarrow> string" where
  \<comment> \<open>\<open>re.sub(r"\s+", " ", text).strip()\<close>\<close>
  "collapse_whitespace text = strip (re_sub_runs 1 isspace '' '' text)"

definition split_sentences :: "string \<Rightarrow> string list" where
  "split_sentences text =
     (let text1 = collapse_whitespace text
      in if text1 = [] then []
         else let sentences = re_split_sentences text1
              in map strip (filter (\<lambda>s. 25 \<le> length (strip s)) sentences))"

definition tokenize_words :: "string \<Rightarrow> string list" where
  "tokenize_words text = re_findall_runs is_word_char (lower text)"

definition STOPWORDS :: "string list" where
  "STOPWORDS =
     [''a'', ''an'', ''and'', ''are'', ''as'', ''at'', ''be'', ''by'', ''for'', ''from'',
      ''has'', ''he'', ''in'', ''is'', ''it'', ''its'', ''of'', ''on'', ''or'', ''that'',
      ''the'', ''to'', ''was'', ''were'', ''will'', ''with'', ''you'', ''your'',
      ''we'', ''they'', ''them'', ''this'', ''those'', ''these'', ''i'', ''my'', ''our'',
      ''us'', ''not'', ''can'', ''could'', ''should'', ''would'', ''may'', ''might'',
      ''about'', ''into'', ''than'', ''then'']"

subsection \<open>collections.Counter\<close>

text \<open>
  A \<open>Counter\<close> is a dict, which keeps its keys in the order of their first insertion:
  an association list in that order.
\<close>

type_synonym counter = "(string \<times> nat) list"

fun counter_add :: "counter \<Rightarrow> string \<Rightarrow> counter" where
  "counter_add [] w = [(w, 1)]"
| "counter_add ((k, n) # rest) w =
     (if k = w then (k, Suc n) # rest else (k, n) # counter_add rest w)"

definition Counter :: "string list \<Rightarrow> counter" where
  "Counter ws = foldl counter_add [] ws"

definition most_common :: "nat \<Rightarrow> counter \<Rightarrow> counter" where
  \<comment> \<open>\<open>freq.most_common(n)\<close>: the \<open>n\<close> largest counts, equal counts in insertion order\<close>
  "most_common n freq = take n (sort_key (\<lambda>(w, c). - int c) freq)"

definition qualifies :: "nat \<Rightarrow> string \<Rightarrow> bool" where
  \<comment> \<open>\<open>w not in STOPWORDS and len(w) > m\<close>\<close>
  "qualifies m w = (w \<notin> set STOPWORDS \<and> m < length w)"

definition py_slice_to :: "'a list \<Rightarrow> int \<Rightarrow> 'a list" where
  \<comment> \<open>\<open>xs[:k]\<close>; a negative \<open>k\<close> counts from the end\<close>
  "py_slice_to xs k =
     (if k < 0 then take (nat (int (length xs) + k)) xs else take (nat k) xs)"

subsection \<open>summarize_text\<close>

definition no_text_msg :: string where
  "no_text_msg =
     ''Could not extract enough text to summarise. Try a different file or a clearer PDF.''"

definition too_limited_msg :: string where
  "too_limited_msg = ''Text was extracted, but it was too limited to summarise.''"

type_synonym scored_sentence = "nat \<times> nat \<times> string"

definition sentence_score :: "counter \<Rightarrow> string \<Rightarrow> nat" where
  \<comment> \<open>\<open>sum(freq[w] for w in tokenize_words(s) if w in freq)\<close>\<close>
  "sentence_score freq s =
     sum_list (map (\<lambda>w. the (map_of freq w))
                   (filter (\<lambda>w. map_of freq w \<noteq> None) (tokenize_words s)))"

definition score_sentences :: "counter \<Rightarrow> string list \<Rightarrow> scored_sentence list" where
  \<comment> \<open>the loop over \<open>enumerate(sentences)\<close> that fills \<open>scored\<close>\<close>
  "score_sentences freq sentences =
     map (\<lambda>(idx, s). (sentence_score freq s, idx, s)) (enumerate 0 sentences)"

definition sort_by_score :: "scored_sentence list \<Rightarrow> scored_sentence list" where
  \<comment> \<open>\<open>scored.sort(reverse=True, key=lambda x: x[0])\<close>: descending scores, and
      sentences of equal score stay in the order they had\<close>
  "sort_by_score scored = sort_key (\<lambda>(score, idx, s). - int score) scored"

definition select_top :: "int \<Rightarrow> scored_sentence list \<Rightarrow> scored_sentence list" where
  \<comment> \<open>the sort by score, the slice \<open>top\<close> and \<open>top_sorted\<close>, the slice sorted by index\<close>
  "select_top num_sentences scored =
     (let sorted_scored = sort_by_score scored;
          top = py_slice_to sorted_scored (min num_sentences (int (length sorted_scored)))
      in sort_key (\<lambda>(score, idx, s). idx) top)"

definition summary_freq :: "string \<Rightarrow> counter" where
  "summary_freq text = Counter (filter (qualifies 2) (tokenize_words text))"

definition summarize_text :: "string \<Rightarrow> int \<Rightarrow> string" where
  "summarize_text text num_sentences =
     (let sentences = split_sentences text
      in if sentences = [] then no_text_msg
         else let freq = summary_freq text
              in if freq = [] then too_limited_msg
                 else let top_sorted = select_top num_sentences (score_sentences freq sentences)
                      in join '' '' (map (\<lambda>(score, idx, s). s) top_sorted))"

definition summary_sentences :: "string \<Rightarrow> int \<Rightarrow> string list" where
  \<comment> \<open>\<open>[s for _, _, s in top_sorted]\<close>, the list that \<open>summarize_text\<close> joins\<close>
  "summary_sentences text num_sentences =
     map (\<lambda>(score, idx, s). s)
         (select_top num_sentences (score_sentences (summary_freq text) (split_sentences text)))"

subsection \<open>generate_questions\<close>

definition templates :: "(string \<times> string) list" where
  \<comment> \<open>each template as the text before and after \<open>{term}\<close>\<close>
  "templates =
     [(''Define: '' @ [CHR 0x27], [CHR 0x27] @ ''.''),
      (''Explain the importance of '' @ [CHR 0x27], [CHR 0x27] @ '' in the topic.''),
      (''Give one example of how '' @ [CHR 0x27], [CHR 0x27] @ '' is used.''),
      (''What are the benefits or risks related to '' @ [CHR 0x27], [CHR 0x27] @ ''?''),
      (''How does '' @ [CHR 0x27], [CHR 0x27] @ '' impact users or systems?'')]"

definition format_template :: "string \<times> string \<Rightarrow> string \<Rightarrow> string" where
  \<comment> \<open>\<open>template.format(term=term)\<close>\<close>
  "format_template t term = fst t @ term @ snd t"

definition fallback_questions :: "string list" where
  "fallback_questions =
     [''Summarise the main idea of the document in your own words.'',
      ''List 3 key points from the document.'',
      ''What problem is being discussed and what solution is suggested?'']"

fun question_loop :: "int \<Rightarrow> string list \<Rightarrow> string list \<Rightarrow> nat \<Rightarrow> string list" where
  \<comment> \<open>the loop over \<open>key_terms\<close>, with the state \<open>questions\<close> and \<open>t_i\<close>\<close>
  "question_loop max_q [] questions t_i = questions"
| "question_loop max_q (term # rest) questions t_i =
     (if max_q \<le> int (length questions) then questions
      else question_loop max_q rest
             (questions @ [format_template (templates ! (t_i mod length templates)) term])
             (Suc t_i))"

definition question_freq :: "string \<Rightarrow> counter" where
  "question_freq text = Counter (filter (qualifies 3) (tokenize_words text))"

definition key_terms :: "string \<Rightarrow> string list" where
  "key_terms text = map fst (most_common 10 (question_freq text))"

definition generate_questions :: "string \<Rightarrow> int \<Rightarrow> string list" where
  "generate_questions text max_q =
     (let questions = question_loop max_q (key_terms text) [] 0
      in if questions = [] then fallback_questions else questions)"

section \<open>Notions of the specification\<close>

definition no_double :: "(char \<Rightarrow> bool) \<Rightarrow> string \<Rightarrow> bool" where
  \<comment> \<open>no two neighbouring characters are both of the class \<open>C\<close>\<close>
  "no_double C s = successively (\<lambda>a b. \<not> (C a \<and> C b)) s"

definition trimmed :: "string \<Rightarrow> bool" where
  \<comment> \<open>no leading and no trailing whitespace\<close>
  "trimmed s = (s = [] \<or> (\<not> isspace (hd s) \<and> \<not> isspace (last s)))"

definition no_boundary :: "string \<Rightarrow> bool" where
  \<comment> \<open>nowhere in \<open>s\<close> is a sentence terminal followed by whitespace\<close>
  "no_boundary s = successively (\<lambda>a b. \<not> (is_terminal a \<and> isspace b)) s"

text \<open>
  \<open>sentence_of t s\<close>: \<open>s\<close> is a sentence of the text \<open>t\<close>. It begins at the start of
  the text or right after a terminal and a space, it ends at the end of the text or with
  a terminal that a space follows, and it has no terminal followed by whitespace inside.
\<close>

definition sentence_of :: "string \<Rightarrow> string \<Rightarrow> bool" where
  "sentence_of t s =
     (s \<noteq> [] \<and> no_boundary s \<and>
      (\<exists>pre post. t = pre @ s @ post \<and>
         (pre = [] \<or> (\<exists>p c. pre = p @ [c, CHR '' ''] \<and> is_terminal c)) \<and>
         (post = [] \<or> (is_terminal (last s) \<and> hd post = CHR '' ''))))"

definition is_token_char :: "char \<Rightarrow> bool" where
  \<comment> \<open>the character class \<open>[a-z0-9']\<close> of the specification's tokens\<close>
  "is_token_char c =
     (let n = (of_char c :: nat)
      in (97 \<le> n \<and> n \<le> 122) \<or> (48 \<le> n \<and> n \<le> 57) \<or> n = 39)"

text \<open>
  \<open>maximal_runs C s toks\<close>: \<open>toks\<close> are the maximal runs of characters of the class \<open>C\<close>
  in \<open>s\<close>, from left to right. The text is a stretch of separators, then a non-empty run
  that the next character (if any) does not continue, then the rest of the text.
\<close>

inductive maximal_runs :: "(char \<Rightarrow> bool) \<Rightarrow> string \<Rightarrow> string list \<Rightarrow> bool" for C where
  no_run: "\<forall>c\<in>set sep. \<not> C c \<Longrightarrow> maximal_runs C sep []"
| run: "\<forall>c\<in>set sep. \<not> C c \<Longrightarrow> tok \<noteq> [] \<Longrightarrow> \<forall>c\<in>set tok. C c \<Longrightarrow>
        rest = [] \<or> \<not> C (hd rest) \<Longrightarrow> maximal_runs C rest toks \<Longrightarrow>
        maximal_runs C (sep @ tok @ rest) (tok # toks)"

section \<open>Stripping and the substitution of runs\<close>

lemma strip_decomp: "\<exists>a b. s = a @ strip s @ b"
proof -
  let ?t = "dropWhile isspace s"
  have "rev ?t = takeWhile isspace (rev ?t) @ dropWhile isspace (rev ?t)" by simp
  then have "?t = rev (dropWhile isspace (rev ?t)) @ rev (takeWhile isspace (rev ?t))"
    by (metis rev_append rev_rev_ident)
  then have "?t = strip s @ rev (takeWhile isspace (rev ?t))"
    by (simp add: strip_def)
  moreover have "s = takeWhile isspace s @ ?t" by simp
  ultimately show ?thesis by metis
qed

lemma trimmed_strip: "trimmed (strip s)"
proof (cases "strip s = []")
  case True then show ?thesis by (simp add: trimmed_def)
next
  case False
  let ?t = "dropWhile isspace s"
  let ?u = "dropWhile isspace (rev ?t)"
  from False have u: "?u \<noteq> []" by (simp add: strip_def)
  have t: "?t \<noteq> []"
  proof
    assume a: "?t = []"
    have "?u = []" unfolding a by simp
    with u show False by simp
  qed
  have "last (strip s) = hd ?u" using u by (simp add: strip_def last_rev)
  then have l: "\<not> isspace (last (strip s))" using hd_dropWhile [OF u] by simp
  have "rev ?t = takeWhile isspace (rev ?t) @ ?u" by simp
  then have "last (rev ?t) = last ?u" using u by (metis last_appendR)
  then have "hd (strip s) = hd ?t" using u t by (simp add: strip_def hd_rev last_rev)
  then have "\<not> isspace (hd (strip s))" using hd_dropWhile [OF t] by simp
  with l show ?thesis by (simp add: trimmed_def)
qed

lemma strip_trimmed: "trimmed s \<Longrightarrow> strip s = s"
proof (cases "s = []")
  case True then show ?thesis by (simp add: strip_def)
next
  case False
  assume "trimmed s"
  with False have h: "\<not> isspace (hd s)" and l: "\<not> isspace (last s)" by (auto simp: trimmed_def)
  from h False have "dropWhile isspace s = s" by (cases s) auto
  moreover from l False have "dropWhile isspace (rev s) = rev s"
    by (cases "rev s") (auto simp: last_rev hd_rev dest: arg_cong [where f = hd])
  ultimately show ?thesis by (simp add: strip_def)
qed

lemma set_strip: "set (strip s) \<subseteq> set s"
  using strip_decomp [of s] by (metis set_append sup_ge1 sup_ge2 subset_trans)

lemma no_double_strip: "no_double C s \<Longrightarrow> no_double C (strip s)"
proof -
  assume a: "no_double C s"
  obtain x y where "s = x @ strip s @ y" using strip_decomp by blast
  with a have "successively (\<lambda>a b. \<not> (C a \<and> C b)) (x @ strip s @ y)" by (simp add: no_double_def)
  then show ?thesis unfolding no_double_def successively_append_iff by blast
qed

lemma re_sub_runs_hd_not:
  "s = [] \<or> \<not> C (hd s) \<Longrightarrow>
   re_sub_runs k C rep s = [] \<or> \<not> C (hd (re_sub_runs k C rep s))"
  by (cases s) auto

lemma no_double_re_sub_runs:
  "C r \<Longrightarrow> k \<le> 2 \<Longrightarrow> no_double C (re_sub_runs k C [r] s)"
proof (induction k C "[r]" s rule: re_sub_runs.induct)
  case (1 k C) then show ?case by (simp add: no_double_def)
next
  case (2 k C c cs)
  show ?case
  proof (cases "C c \<and> k \<le> Suc (length (takeWhile C cs))")
    case True
    let ?d = "dropWhile C cs"
    have ih: "no_double C (re_sub_runs k C [r] ?d)" using 2 True by simp
    have "?d = [] \<or> \<not> C (hd ?d)" using hd_dropWhile by blast
    then have "re_sub_runs k C [r] ?d = [] \<or> \<not> C (hd (re_sub_runs k C [r] ?d))"
      by (rule re_sub_runs_hd_not)
    with ih True show ?thesis by (auto simp: no_double_def successively_Cons)
  next
    case False
    have ih: "no_double C (re_sub_runs k C [r] cs)" using 2 False by simp
    show ?thesis
    proof (cases "C c")
      case True
      with False 2(4) have "takeWhile C cs = []" by (cases "takeWhile C cs") auto
      then have "cs = [] \<or> \<not> C (hd cs)" by (simp add: takeWhile_eq_Nil_iff)
      then have "re_sub_runs k C [r] cs = [] \<or> \<not> C (hd (re_sub_runs k C [r] cs))"
        by (rule re_sub_runs_hd_not)
      with ih False show ?thesis by (auto simp: no_double_def successively_Cons)
    next
      case False
      with ih show ?thesis by (auto simp: no_double_def successively_Cons)
    qed
  qed
qed

lemma no_double_suffix: "no_double D (a @ b) \<Longrightarrow> no_double D b"
  by (simp add: no_double_def successively_append_iff)

lemma no_double_dropWhile: "no_double D s \<Longrightarrow> no_double D (dropWhile C s)"
  by (metis no_double_suffix takeWhile_dropWhile_id)

lemma no_double_preserved:
  "no_double D s \<Longrightarrow> \<not> D r \<Longrightarrow> no_double D (re_sub_runs k C [r] s)"
proof (induction k C "[r]" s rule: re_sub_runs.induct)
  case (1 k C) then show ?case by (simp add: no_double_def)
next
  case (2 k C c cs)
  have tl: "no_double D cs" using 2(3) no_double_suffix [of D "[c]" cs] by simp
  show ?case
  proof (cases "C c \<and> k \<le> Suc (length (takeWhile C cs))")
    case True
    have "no_double D (re_sub_runs k C [r] (dropWhile C cs))"
      using 2 True tl no_double_dropWhile by simp
    with True 2(4) show ?thesis by (auto simp: no_double_def successively_Cons)
  next
    case False
    have ih: "no_double D (re_sub_runs k C [r] cs)" using 2 False tl by simp
    show ?thesis
    proof (cases cs)
      case Nil with False show ?thesis by (simp add: no_double_def)
    next
      case (Cons d ds)
      have pair: "\<not> (D c \<and> D d)" using 2(3) Cons by (simp add: no_double_def)
      have "hd (re_sub_runs k C [r] cs) = r \<or> hd (re_sub_runs k C [r] cs) = d"
        using Cons by simp
      with pair 2(4) have "\<not> (D c \<and> D (hd (re_sub_runs k C [r] cs)))" by auto
      with ih False show ?thesis by (auto simp: no_double_def successively_Cons)
    qed
  qed
qed

lemma re_sub_runs_id: "no_double C s \<Longrightarrow> re_sub_runs 2 C rep s = s"
proof (induction s)
  case Nil then show ?case by simp
next
  case (Cons c cs)
  then have ih: "re_sub_runs 2 C rep cs = cs"
    using no_double_suffix [of C "[c]" cs] by simp
  have "takeWhile C cs = []" if "C c"
  proof (cases cs)
    case Nil then show ?thesis by simp
  next
    case (Cons d ds)
    with that Cons.prems have "\<not> C d" by (simp add: no_double_def)
    with Cons show ?thesis by simp
  qed
  with ih show ?case by auto
qed

lemma set_re_sub_runs: "set (re_sub_runs k C rep s) \<subseteq> set s \<union> set rep"
proof (induction k C rep s rule: re_sub_runs.induct)
  case 1 then show ?case by simp
next
  case (2 k C rep c cs)
  show ?case
  proof (cases "C c \<and> k \<le> Suc (length (takeWhile C cs))")
    case True
    with 2 have "set (re_sub_runs k C rep (dropWhile C cs)) \<subseteq> set (dropWhile C cs) \<union> set rep" by simp
    moreover have "set (dropWhile C cs) \<subseteq> set cs" by (auto dest: set_dropWhileD)
    ultimately show ?thesis using True by auto
  next
    case False
    with 2 show ?thesis by auto
  qed
qed

lemma replace_char_id: "a \<notin> set s \<Longrightarrow> replace_char a b s = s"
  by (induction s) (auto simp: replace_char_def)

lemma CR_notin_replace: "CR \<notin> set (replace_char CR LF s)"
  by (auto simp: replace_char_def CR_def LF_def)

lemma CR_notin_clean_text: "CR \<notin> set (clean_text x)"
proof -
  let ?t1 = "replace_char CR LF x"
  let ?t2 = "re_sub_runs 2 is_newline [LF] ?t1"
  let ?t3 = "re_sub_runs 2 is_blank '' '' ?t2"
  have "set ?t2 \<subseteq> set ?t1 \<union> {LF}" using set_re_sub_runs [of 2 is_newline "[LF]" ?t1] by simp
  then have "CR \<notin> set ?t2" using CR_notin_replace [of x] by (auto simp: CR_def LF_def)
  moreover have "set ?t3 \<subseteq> set ?t2 \<union> {CHR '' ''}" using set_re_sub_runs [of 2 is_blank "'' ''" ?t2] by simp
  ultimately have "CR \<notin> set ?t3" by (auto simp: CR_def)
  then show ?thesis using set_strip [of ?t3] by (auto simp: clean_text_def Let_def)
qed

lemma no_double_newline_clean_text: "no_double is_newline (clean_text x)"
proof -
  have "no_double is_newline (re_sub_runs 2 is_newline [LF] (replace_char CR LF x))"
    by (rule no_double_re_sub_runs) (simp_all add: is_newline_def)
  then have "no_double is_newline (re_sub_runs 2 is_blank [CHR '' ''] (re_sub_runs 2 is_newline [LF] (replace_char CR LF x)))"
    by (rule no_double_preserved) (simp add: is_newline_def LF_def)
  then show ?thesis by (simp add: clean_text_def Let_def no_double_strip)
qed

lemma no_double_blank_clean_text: "no_double is_blank (clean_text x)"
proof -
  have "no_double is_blank (re_sub_runs 2 is_blank [CHR '' ''] (re_sub_runs 2 is_newline [LF] (replace_char CR LF x)))"
    by (rule no_double_re_sub_runs) (simp_all add: is_blank_def)
  then show ?thesis by (simp add: clean_text_def Let_def no_double_strip)
qed

lemma trimmed_clean_text: "trimmed (clean_text x)"
  by (simp add: clean_text_def Let_def trimmed_strip)

lemma successively_nth:
  "successively R s \<longleftrightarrow> (\<forall>i. Suc i < length s \<longrightarrow> R (s ! i) (s ! Suc i))"
proof (induction s)
  case Nil
  then show ?case by simp
next
  case (Cons c cs)
  show ?case
  proof (cases cs)
    case Nil
    then show ?thesis by simp
  next
    case (Cons d ds)
    have "(\<forall>i. Suc i < length (c # cs) \<longrightarrow> R ((c # cs) ! i) ((c # cs) ! Suc i))
          \<longleftrightarrow> R c d \<and> (\<forall>i. Suc i < length cs \<longrightarrow> R (cs ! i) (cs ! Suc i))"
      (is "?L \<longleftrightarrow> ?R")
    proof
      assume l: ?L
      have "R c d" using l [rule_format, of 0] Cons by simp
      moreover have "R (cs ! i) (cs ! Suc i)" if "Suc i < length cs" for i
        using l [rule_format, of "Suc i"] that by simp
      ultimately show ?R by blast
    next
      assume r: ?R
      show ?L
      proof (intro allI impI)
        fix i assume "Suc i < length (c # cs)"
        then show "R ((c # cs) ! i) ((c # cs) ! Suc i)"
          using r Cons by (cases i) auto
      qed
    qed
    moreover have "successively R (c # cs) \<longleftrightarrow> R c d \<and> successively R cs"
      using Cons by simp
    ultimately show ?thesis using Cons.IH by simp
  qed
qed

lemma no_double_nth:
  "no_double C s \<longleftrightarrow> (\<forall>i. Suc i < length s \<longrightarrow> \<not> (C (s ! i) \<and> C (s ! Suc i)))"
  unfolding no_double_def by (rule successively_nth)

section \<open>The text normalizer\<close>

text \<open>
  C4. \<open>clean_text\<close> is idempotent: cleaning a cleaned text changes nothing.
\<close>

theorem clean_text_idempotent: "clean_text (clean_text x) = clean_text x"
proof -
  let ?y = "clean_text x"
  have 1: "replace_char CR LF ?y = ?y" by (rule replace_char_id) (rule CR_notin_clean_text)
  have 2: "re_sub_runs 2 is_newline [LF] ?y = ?y"
    by (rule re_sub_runs_id) (rule no_double_newline_clean_text)
  have 3: "re_sub_runs 2 is_blank '' '' ?y = ?y"
    by (rule re_sub_runs_id) (rule no_double_blank_clean_text)
  have 4: "strip ?y = ?y" by (rule strip_trimmed) (rule trimmed_clean_text)
  have "clean_text ?y = strip (re_sub_runs 2 is_blank '' '' (re_sub_runs 2 is_newline [LF] (replace_char CR LF ?y)))"
    by (simp add: clean_text_def Let_def)
  also have "\<dots> = ?y" by (simp only: 1 2 3 4)
  finally show ?thesis .
qed

text \<open>
  C5. The output of \<open>clean_text\<close> has no two consecutive newlines, no two consecutive
  characters of space or tab, and no leading or trailing whitespace; the empty input gives
  the empty output.
\<close>

theorem clean_text_invariant:
  "(\<forall>i. Suc i < length (clean_text x) \<longrightarrow>
        \<not> (clean_text x ! i = LF \<and> clean_text x ! Suc i = LF)) \<and>
   (\<forall>i. Suc i < length (clean_text x) \<longrightarrow>
        \<not> (is_blank (clean_text x ! i) \<and> is_blank (clean_text x ! Suc i))) \<and>
   (clean_text x \<noteq> [] \<longrightarrow>
        \<not> isspace (hd (clean_text x)) \<and> \<not> isspace (last (clean_text x))) \<and>
   clean_text [] = []"
proof -
  have n: "\<forall>i. Suc i < length (clean_text x) \<longrightarrow>
        \<not> (clean_text x ! i = LF \<and> clean_text x ! Suc i = LF)"
    using no_double_newline_clean_text [of x] by (simp add: no_double_nth is_newline_def)
  have b: "\<forall>i. Suc i < length (clean_text x) \<longrightarrow>
        \<not> (is_blank (clean_text x ! i) \<and> is_blank (clean_text x ! Suc i))"
    using no_double_blank_clean_text [of x] by (simp add: no_double_nth)
  have t: "clean_text x \<noteq> [] \<longrightarrow>
        \<not> isspace (hd (clean_text x)) \<and> \<not> isspace (last (clean_text x))"
    using trimmed_clean_text [of x] unfolding trimmed_def by blast
  have e: "clean_text [] = []"
    by (simp add: clean_text_def replace_char_def strip_def)
  from n b t e show ?thesis by blast
qed

theorem clean_text_invariant_witness:
  "clean_text ('' a  b'' @ [CR, LF, LF] @ '' c  '') = ''a b'' @ [LF] @ '' c'' \<and>
   \<not> isspace (hd (clean_text ('' a  b'' @ [CR, LF, LF] @ '' c  ''))) \<and>
   \<not> isspace (last (clean_text ('' a  b'' @ [CR, LF, LF] @ '' c  ''))) \<and>
   \<not> (clean_text ('' a  b'' @ [CR, LF, LF] @ '' c  '') ! 3 = LF \<and>
      clean_text ('' a  b'' @ [CR, LF, LF] @ '' c  '') ! Suc 3 = LF) \<and>
   \<not> (is_blank (clean_text ('' a  b'' @ [CR, LF, LF] @ '' c  '') ! 1) \<and>
      is_blank (clean_text ('' a  b'' @ [CR, LF, LF] @ '' c  '') ! Suc 1))"
proof -
  have e: "clean_text ('' a  b'' @ [CR, LF, LF] @ '' c  '') = ''a b'' @ [LF] @ '' c''"
    by code_simp
  have l: "Suc 3 < length (clean_text ('' a  b'' @ [CR, LF, LF] @ '' c  ''))"
    and l1: "Suc 1 < length (clean_text ('' a  b'' @ [CR, LF, LF] @ '' c  ''))"
    and ne: "clean_text ('' a  b'' @ [CR, LF, LF] @ '' c  '') \<noteq> []"
    unfolding e by simp_all
  show ?thesis
    using clean_text_invariant [of "'' a  b'' @ [CR, LF, LF] @ '' c  ''"] e l l1 ne
    by blast
qed

section \<open>The tokenizer\<close>

lemma maximal_runs_skip: "maximal_runs C s toks \<Longrightarrow> \<not> C c \<Longrightarrow> maximal_runs C (c # s) toks"
proof (induction rule: maximal_runs.induct)
  case (no_run sep)
  then show ?case by (intro maximal_runs.no_run) simp
next
  case (run sep tok rest toks)
  have "maximal_runs C ((c # sep) @ tok @ rest) (tok # toks)"
    using run by (intro maximal_runs.run) auto
  then show ?case by simp
qed

lemma maximal_runs_findall: "maximal_runs C s (re_findall_runs C s)"
proof (induction C s rule: re_findall_runs.induct)
  case (1 C)
  show ?case using maximal_runs.no_run [of "[]" C] by simp
next
  case (2 C c cs)
  show ?case
  proof (cases "C c")
    case True
    have "maximal_runs C ([] @ (c # takeWhile C cs) @ dropWhile C cs)
            ((c # takeWhile C cs) # re_findall_runs C (dropWhile C cs))"
    proof (rule maximal_runs.run)
      show "\<forall>x\<in>set (c # takeWhile C cs). C x" using True by (auto dest: set_takeWhileD)
      show "dropWhile C cs = [] \<or> \<not> C (hd (dropWhile C cs))" using hd_dropWhile by blast
      show "maximal_runs C (dropWhile C cs) (re_findall_runs C (dropWhile C cs))"
        using 2 True by simp
    qed simp_all
    with True show ?thesis by simp
  next
    case False
    with 2 show ?thesis by (simp add: maximal_runs_skip)
  qed
qed

lemma findall_no_match: "\<forall>c\<in>set s. \<not> C c \<Longrightarrow> re_findall_runs C s = []"
  by (induction s) auto

lemma findall_skip: "\<forall>c\<in>set sep. \<not> C c \<Longrightarrow> re_findall_runs C (sep @ s) = re_findall_runs C s"
  by (induction sep) auto

lemma findall_unique: "maximal_runs C s toks \<Longrightarrow> re_findall_runs C s = toks"
proof (induction rule: maximal_runs.induct)
  case (no_run sep)
  then show ?case by (simp add: findall_no_match)
next
  case (run sep tok rest toks)
  from run(2) obtain t ts where tok: "tok = t # ts" by (cases tok) auto
  with run(3) have t: "C t" and ts: "\<forall>c\<in>set ts. C c" by auto
  have tw: "takeWhile C (ts @ rest) = ts" using ts run(4)
    by (cases rest) (auto simp: takeWhile_append2)
  have dw: "dropWhile C (ts @ rest) = rest" using ts run(4)
    by (cases rest) (auto simp: dropWhile_append2)
  have "re_findall_runs C (sep @ tok @ rest) = re_findall_runs C (t # ts @ rest)"
    using run(1) tok by (simp add: findall_skip)
  also have "\<dots> = tok # re_findall_runs C rest" using t tw dw tok by simp
  finally show ?case using run.IH by simp
qed

lemma maximal_runs_cong:
  "maximal_runs C s toks \<Longrightarrow> \<forall>c\<in>set s. C c = D c \<Longrightarrow> maximal_runs D s toks"
proof (induction rule: maximal_runs.induct)
  case (no_run sep)
  then show ?case by (intro maximal_runs.no_run) simp
next
  case (run sep tok rest toks)
  show ?case
  proof (rule maximal_runs.run)
    show "\<forall>c\<in>set sep. \<not> D c" using run by auto
    show "tok \<noteq> []" by fact
    show "\<forall>c\<in>set tok. D c" using run by auto
    show "rest = [] \<or> \<not> D (hd rest)" using run(4) run.prems by (cases rest) auto
    show "maximal_runs D rest toks" using run by auto
  qed
qed

lemma lower_char_not_upper:
  "\<not> (65 \<le> (of_char (lower_char c) :: nat) \<and> (of_char (lower_char c) :: nat) \<le> 90)"
  by (auto simp: lower_char_def Let_def)

lemma word_char_lower: "c \<in> set (lower t) \<Longrightarrow> is_word_char c = is_token_char c"
  using lower_char_not_upper by (auto simp: lower_def is_word_char_def is_token_char_def Let_def)

text \<open>
  C7. \<open>tokenize_words\<close> lowercases its input and returns the maximal runs of characters
  of \<open>[a-z0-9']\<close>, from left to right, and nothing else; \<open>"Hello, World! 123"\<close> gives
  \<open>["hello", "world", "123"]\<close> and the empty text gives no token.
\<close>

theorem tokenize_words_maximal_runs:
  "tokenize_words ''Hello, World! 123'' = [''hello'', ''world'', ''123''] \<and>
   tokenize_words [] = [] \<and>
   maximal_runs is_token_char (lower text) (tokenize_words text) \<and>
   (\<forall>toks. maximal_runs is_token_char (lower text) toks \<longrightarrow> toks = tokenize_words text)"
proof -
  have ex: "tokenize_words ''Hello, World! 123'' = [''hello'', ''world'', ''123'']"
    by code_simp
  have e: "tokenize_words [] = []" by (simp add: tokenize_words_def lower_def)
  have m: "maximal_runs is_token_char (lower text) (tokenize_words text)"
    unfolding tokenize_words_def
    by (rule maximal_runs_cong [OF maximal_runs_findall]) (simp add: word_char_lower)
  have u: "toks = tokenize_words text" if "maximal_runs is_token_char (lower text) toks" for toks
  proof -
    have "maximal_runs is_word_char (lower text) toks"
      by (rule maximal_runs_cong [OF that]) (simp add: word_char_lower)
    then show ?thesis unfolding tokenize_words_def by (simp add: findall_unique)
  qed
  from ex e m u show ?thesis by blast
qed

theorem tokenize_words_maximal_runs_witness:
  "maximal_runs is_token_char (lower ''Hi, you'') [''hi'', ''you''] \<and>
   tokenize_words ''Hi, you'' = [''hi'', ''you'']"
proof -
  have "tokenize_words ''Hi, you'' = [''hi'', ''you'']" by code_simp
  then show ?thesis using tokenize_words_maximal_runs [of "''Hi, you''"] by simp
qed

section \<open>The question generator\<close>

lemma question_loop_nonpos: "max_q \<le> 0 \<Longrightarrow> question_loop max_q terms [] 0 = []"
  by (cases terms) auto

text \<open>
  C9. \<open>generate_questions\<close> never returns the empty list: when the loop produces no
  question, also with \<open>max_q \<le> 0\<close> and key terms at hand, the three fallback questions
  are returned, more than \<open>max_q\<close> of them.
\<close>

theorem generate_questions_never_empty:
  "generate_questions text max_q \<noteq> [] \<and>
   (question_loop max_q (key_terms text) [] 0 = [] \<longrightarrow>
      generate_questions text max_q = fallback_questions) \<and>
   (max_q \<le> 0 \<longrightarrow> generate_questions text max_q = fallback_questions \<and>
      max_q < int (length (generate_questions text max_q))) \<and>
   length fallback_questions = 3"
  by (auto simp: generate_questions_def Let_def question_loop_nonpos fallback_questions_def)

theorem generate_questions_never_empty_witness:
  "key_terms ''python rocks'' = [''python'', ''rocks''] \<and> (0::int) \<le> 0 \<and>
   generate_questions ''python rocks'' 0 = fallback_questions \<and>
   (0::int) < int (length (generate_questions ''python rocks'' 0))"
proof -
  have "key_terms ''python rocks'' = [''python'', ''rocks'']" by code_simp
  then show ?thesis using generate_questions_never_empty [of "''python rocks''" 0] by simp
qed

section \<open>The summarizer\<close>

text \<open>
  C10. With at least one sentence and a non-empty frequency table,
  \<open>summarize_text text 0\<close> is the empty string and neither fallback message.
\<close>

theorem summarize_text_zero:
  "split_sentences text \<noteq> [] \<Longrightarrow> summary_freq text \<noteq> [] \<Longrightarrow> summarize_text text 0 = []"
  by (simp add: summarize_text_def Let_def select_top_def py_slice_to_def sort_by_score_def)

theorem summarize_text_zero_witness:
  "split_sentences ''Foxes are clever animals known for agility.'' \<noteq> [] \<and>
   summary_freq ''Foxes are clever animals known for agility.'' \<noteq> [] \<and>
   summarize_text ''Foxes are clever animals known for agility.'' 0 = []"
proof -
  have s: "split_sentences ''Foxes are clever animals known for agility.'' \<noteq> []" by code_simp
  have f: "summary_freq ''Foxes are clever animals known for agility.'' \<noteq> []" by code_simp
  show ?thesis using s f summarize_text_zero [OF s f] by simp
qed

subsection \<open>Scoring and selection\<close>

lemma py_slice_to_take: "\<exists>k. py_slice_to xs m = take k xs"
  by (auto simp: py_slice_to_def)

lemma map_idx_score_sentences:
  "map (\<lambda>(score, idx, s). idx) (score_sentences freq sents) = [0..<length sents]"
proof -
  have "map (\<lambda>(score, idx, s). idx) (score_sentences freq sents) = map fst (enumerate 0 sents)"
    by (simp add: score_sentences_def split_def comp_def)
  then show ?thesis by simp
qed

lemma map_text_score_sentences:
  "map (\<lambda>(score, idx, s). s) (score_sentences freq sents) = sents"
proof -
  have "map (\<lambda>(score, idx, s). s) (score_sentences freq sents) = map snd (enumerate 0 sents)"
    by (simp add: score_sentences_def split_def comp_def)
  then show ?thesis by simp
qed

lemma score_sentences_nth:
  "i < length sents \<Longrightarrow>
   score_sentences freq sents ! i = (sentence_score freq (sents ! i), i, sents ! i)"
  by (simp add: score_sentences_def nth_enumerate_eq)

lemma length_score_sentences: "length (score_sentences freq sents) = length sents"
  by (simp add: score_sentences_def)

lemma distinct_idx_score_sentences:
  "distinct (map (\<lambda>(score, idx, s). idx) (score_sentences freq sents))"
  by (simp add: map_idx_score_sentences)

lemma sorted_idx_score_sentences:
  "sorted (map (\<lambda>(score, idx, s). idx) (score_sentences freq sents))"
  by (simp add: map_idx_score_sentences)

text \<open>Sorting a part of a list that is sorted by a key without repetition.\<close>

lemma sort_key_sublist:
  fixes g :: "'a \<Rightarrow> nat"
  assumes "sorted (map g xs)" "distinct (map g xs)" "distinct ys" "set ys \<subseteq> set xs"
  shows "sort_key g ys = filter (\<lambda>x. x \<in> set ys) xs"
proof -
  let ?L = "sort_key g ys" and ?R = "filter (\<lambda>x. x \<in> set ys) xs"
  have inj: "inj_on g (set xs)" and dx: "distinct xs"
    using assms(2) by (simp_all add: distinct_map)
  have sets: "set ?L = set ys" "set ?R = set ys" using assms(4) by auto
  have injy: "inj_on g (set ys)" using inj assms(4) by (rule inj_on_subset)
  have "sorted (map g ?L)" by (rule sorted_sort_key)
  moreover have "distinct (map g ?L)" using assms(3) injy by (simp add: distinct_map)
  moreover have "sorted (map g ?R)" using assms(1) by (rule sorted_filter)
  moreover have "distinct (map g ?R)" using dx inj sets(2) injy by (simp add: distinct_map)
  moreover have "set (map g ?L) = set (map g ?R)" using sets by simp
  ultimately have "map g ?L = map g ?R" by (rule sorted_distinct_set_unique)
  moreover have "inj_on g (set ?L \<union> set ?R)" using injy sets by simp
  ultimately show ?thesis by (simp add: inj_on_map_eq_map)
qed

lemma select_top_filter:
  "\<exists>P. select_top n (score_sentences freq sents) = filter P (score_sentences freq sents)"
proof -
  let ?xs = "score_sentences freq sents"
  obtain k where k: "py_slice_to (sort_by_score ?xs) (min n (int (length (sort_by_score ?xs))))
      = take k (sort_by_score ?xs)"
    using py_slice_to_take by blast
  let ?top = "take k (sort_by_score ?xs)"
  have dx: "distinct ?xs" using distinct_idx_score_sentences [of freq sents]
    by (simp add: distinct_map)
  have "distinct ?top" using dx by (simp add: sort_by_score_def)
  moreover have "set ?top \<subseteq> set ?xs" using set_take_subset [of k "sort_by_score ?xs"]
    by (simp add: sort_by_score_def)
  ultimately have "sort_key (\<lambda>(score, idx, s). idx) ?top = filter (\<lambda>x. x \<in> set ?top) ?xs"
    using sorted_idx_score_sentences distinct_idx_score_sentences
    by (intro sort_key_sublist) auto
  then show ?thesis using k by (auto simp: select_top_def Let_def)
qed

lemma subseq_summary_sentences: "subseq (summary_sentences text n) (split_sentences text)"
proof -
  obtain P where "select_top n (score_sentences (summary_freq text) (split_sentences text))
      = filter P (score_sentences (summary_freq text) (split_sentences text))"
    using select_top_filter by blast
  then have "subseq (summary_sentences text n)
      (map (\<lambda>(score, idx, s). s) (score_sentences (summary_freq text) (split_sentences text)))"
    unfolding summary_sentences_def by (simp add: subseq_map)
  then show ?thesis by (simp add: map_text_score_sentences)
qed

lemma length_summary_sentences:
  "0 \<le> n \<Longrightarrow>
   int (length (summary_sentences text n)) = min n (int (length (split_sentences text)))"
  by (auto simp: summary_sentences_def select_top_def Let_def py_slice_to_def sort_by_score_def
      length_score_sentences min_def)


text \<open>Where a stable sort puts two elements of equal key.\<close>

lemma split_unique:
  "b \<notin> set l1 \<Longrightarrow> b \<notin> set r1 \<Longrightarrow> l1 @ b # r1 = l2 @ b # r2 \<Longrightarrow> l1 = l2"
proof (induction l1 arbitrary: l2)
  case Nil
  then show ?case by (cases l2) auto
next
  case (Cons a l1)
  then show ?case by (cases l2) auto
qed

lemma stable_prefix:
  assumes st: "filter (\<lambda>y. f y = c) ys = filter (\<lambda>y. f y = c) xs"
    and d: "distinct ys"
    and j: "j < length xs" and i: "i < j"
    and fa: "f (xs ! i) = c" and fb: "f (xs ! j) = c"
    and b: "xs ! j \<in> set (take k ys)"
  shows "xs ! i \<in> set (take k ys)"
proof -
  let ?F = "filter (\<lambda>y. f y = c)"
  obtain u v where uv: "take k ys = u @ xs ! j # v" using b by (auto dest: split_list)
  have ys: "ys = u @ xs ! j # (v @ drop k ys)"
    using uv append_take_drop_id [of k ys] by (metis append_Cons append_assoc)
  have xs: "xs = take j xs @ xs ! j # drop (Suc j) xs" using j by (rule id_take_nth_drop)
  have "?F ys = ?F u @ xs ! j # ?F (v @ drop k ys)"
    by (subst ys) (simp add: fb)
  moreover have "?F xs = ?F (take j xs) @ xs ! j # ?F (drop (Suc j) xs)"
    by (subst xs) (simp add: fb)
  ultimately have e: "?F u @ xs ! j # ?F (v @ drop k ys)
      = ?F (take j xs) @ xs ! j # ?F (drop (Suc j) xs)"
    using st by simp
  have "distinct (u @ xs ! j # (v @ drop k ys))" using d ys by simp
  then have "xs ! j \<notin> set (?F u)" "xs ! j \<notin> set (?F (v @ drop k ys))" by auto
  then have "?F u = ?F (take j xs)" using e by (rule split_unique)
  moreover have "xs ! i \<in> set (take j xs)"
    using i j by (auto simp: in_set_conv_nth intro!: exI [of _ i])
  ultimately have "xs ! i \<in> set (?F u)" using fa by simp
  then have "xs ! i \<in> set u" by simp
  then show ?thesis using uv by simp
qed

lemma sort_by_score_stable:
  "filter (\<lambda>(score, idx, s). score = k) (sort_by_score scored)
     = filter (\<lambda>(score, idx, s). score = k) scored"
proof -
  have "filter (\<lambda>y. (\<lambda>(score, idx, s). - int score) y = - int k) (sort_by_score scored)
      = filter (\<lambda>y. (\<lambda>(score, idx, s). - int score) y = - int k) scored"
    unfolding sort_by_score_def by (rule sort_key_stable)
  then show ?thesis by (simp add: split_def)
qed

lemma sorted_sort_by_score:
  "sorted (rev (map (\<lambda>(score, idx, s). score) (sort_by_score scored)))"
proof -
  have "sorted (map (\<lambda>(score, idx, s). - int score) (sort_by_score scored))"
    unfolding sort_by_score_def by (rule sorted_sort_key)
  then have "sorted_wrt (\<lambda>x y. (\<lambda>(score, idx, s). score) x \<ge> (\<lambda>(score, idx, s). score) y) (sort_by_score scored)"
    by (simp add: sorted_wrt_map split_def)
  then show ?thesis by (simp add: sorted_wrt_rev sorted_wrt_map)
qed

lemma select_top_prefers_lower_index:
  assumes sel: "(sc, j, s) \<in> set (select_top n (score_sentences freq sents))"
    and i: "i < j" and eq: "sentence_score freq (sents ! i) = sc"
  shows "(sc, i, sents ! i) \<in> set (select_top n (score_sentences freq sents))"
proof -
  let ?xs = "score_sentences freq sents"
  obtain k where k: "py_slice_to (sort_by_score ?xs) (min n (int (length (sort_by_score ?xs))))
      = take k (sort_by_score ?xs)"
    using py_slice_to_take by blast
  have set_sel: "set (select_top n ?xs) = set (take k (sort_by_score ?xs))"
    using k by (simp add: select_top_def Let_def)
  have "(sc, j, s) \<in> set ?xs"
    using sel set_sel set_take_subset [of k "sort_by_score ?xs"] by (auto simp: sort_by_score_def)
  then obtain m where m: "m < length ?xs" "?xs ! m = (sc, j, s)" by (auto simp: in_set_conv_nth)
  then have mj: "m = j" and j: "j < length sents"
    by (simp_all add: score_sentences_nth length_score_sentences)
  have xj: "?xs ! j = (sc, j, s)" using m mj by simp
  have xi: "?xs ! i = (sc, i, sents ! i)" using i j eq by (simp add: score_sentences_nth)
  have dx: "distinct ?xs" using distinct_idx_score_sentences [of freq sents]
    by (simp add: distinct_map)
  have "?xs ! i \<in> set (take k (sort_by_score ?xs))"
  proof (rule stable_prefix [where f = "\<lambda>(score, idx, s). - int score" and c = "- int sc" and j = j])
    show "filter (\<lambda>y. (case y of (score, idx, s) \<Rightarrow> - int score) = - int sc) (sort_by_score ?xs)
        = filter (\<lambda>y. (case y of (score, idx, s) \<Rightarrow> - int score) = - int sc) ?xs"
      unfolding sort_by_score_def by (rule sort_key_stable)
    show "distinct (sort_by_score ?xs)" using dx by (simp add: sort_by_score_def)
    show "j < length ?xs" using j by (simp add: length_score_sentences)
    show "i < j" by fact
    show "(case ?xs ! i of (score, idx, s) \<Rightarrow> - int score) = - int sc" using xi by simp
    show "(case ?xs ! j of (score, idx, s) \<Rightarrow> - int score) = - int sc" using xj by simp
    show "?xs ! j \<in> set (take k (sort_by_score ?xs))" using sel set_sel xj by simp
  qed
  then show ?thesis using set_sel xi by simp
qed

text \<open>
  C1, for a count that is not negative. The summary is a fallback message or the
  sentences of \<open>summary_sentences\<close> joined by single spaces; these are a subsequence of
  the segmented sentences, so they keep their relative order, and when
  \<open>0 \<le> num_sentences\<close> there are \<open>min num_sentences (number of sentences)\<close> of them, at
  most \<open>num_sentences\<close>.
\<close>

theorem summarize_text_at_most:
  "summarize_text text n =
     (if split_sentences text = [] then no_text_msg
      else if summary_freq text = [] then too_limited_msg
      else join '' '' (summary_sentences text n)) \<and>
   subseq (summary_sentences text n) (split_sentences text) \<and>
   (0 \<le> n \<longrightarrow>
      int (length (summary_sentences text n)) = min n (int (length (split_sentences text))) \<and>
      int (length (summary_sentences text n)) \<le> n)"
proof -
  have "summarize_text text n =
     (if split_sentences text = [] then no_text_msg
      else if summary_freq text = [] then too_limited_msg
      else join '' '' (summary_sentences text n))"
    by (simp add: summarize_text_def summary_sentences_def Let_def)
  moreover have "int (length (summary_sentences text n)) \<le> n" if "0 \<le> n"
    using that length_summary_sentences [of n "text"] by simp
  ultimately show ?thesis
    using subseq_summary_sentences [of "text" n] length_summary_sentences [of n "text"] by blast
qed

theorem summarize_text_at_most_witness:
  "summary_sentences
     ''The quick brown fox jumps over the lazy dog. The dog barked loudly at the fox near the river. Foxes are clever animals known for agility.'' 2
   = [''The quick brown fox jumps over the lazy dog.'',
      ''The dog barked loudly at the fox near the river.''] \<and>
   int (length (summary_sentences
     ''The quick brown fox jumps over the lazy dog. The dog barked loudly at the fox near the river. Foxes are clever animals known for agility.'' 2)) \<le> 2 \<and>
   summarize_text
     ''The quick brown fox jumps over the lazy dog. The dog barked loudly at the fox near the river. Foxes are clever animals known for agility.'' 2
   = ''The quick brown fox jumps over the lazy dog. The dog barked loudly at the fox near the river.''"
proof -
  let ?T = "''The quick brown fox jumps over the lazy dog. The dog barked loudly at the fox near the river. Foxes are clever animals known for agility.''"
  have s: "summary_sentences ?T 2
      = [''The quick brown fox jumps over the lazy dog.'',
         ''The dog barked loudly at the fox near the river.'']"
    by code_simp
  have ne: "split_sentences ?T \<noteq> []" by code_simp
  have f: "summary_freq ?T \<noteq> []" by code_simp
  have "summarize_text ?T 2 = join '' '' (summary_sentences ?T 2)"
    using summarize_text_at_most [of ?T 2] ne f by simp
  then have "summarize_text ?T 2
      = ''The quick brown fox jumps over the lazy dog. The dog barked loudly at the fox near the river.''"
    unfolding s by simp
  moreover have "int (length (summary_sentences ?T 2)) \<le> 2"
    using summarize_text_at_most [of ?T 2] by simp
  ultimately show ?thesis using s by blast
qed

text \<open>
  C1 as stated, for every count, fails: with \<open>num_sentences = -1\<close> the slice
  \<open>scored[:-1]\<close> drops the last ranked sentence only, and two sentences are returned.
\<close>

theorem summarize_text_negative_count_counterexample:
  "summary_sentences
     ''The quick brown fox jumps over the lazy dog. The dog barked loudly at the fox near the river. Foxes are clever animals known for agility.'' (- 1)
   = [''The quick brown fox jumps over the lazy dog.'',
      ''The dog barked loudly at the fox near the river.''] \<and>
   summarize_text
     ''The quick brown fox jumps over the lazy dog. The dog barked loudly at the fox near the river. Foxes are clever animals known for agility.'' (- 1)
   = ''The quick brown fox jumps over the lazy dog. The dog barked loudly at the fox near the river.'' \<and>
   \<not> int (length (summary_sentences
     ''The quick brown fox jumps over the lazy dog. The dog barked loudly at the fox near the river. Foxes are clever animals known for agility.'' (- 1))) \<le> - 1"
  by code_simp

text \<open>
  C2. The sort by score is descending and stable (the sentences of any one score keep the
  order of \<open>scored\<close>), and the selection prefers the lower index among sentences of
  equal score: with a selected sentence of index \<open>j\<close>, every sentence of the same score
  and a lower index is selected too.
\<close>

theorem selection_tie_break:
  "sorted (rev (map (\<lambda>(score, idx, s). score) (sort_by_score scored))) \<and>
   filter (\<lambda>(score, idx, s). score = k) (sort_by_score scored)
     = filter (\<lambda>(score, idx, s). score = k) scored \<and>
   ((sc, j, s) \<in> set (select_top n (score_sentences freq sents)) \<and> i < j \<and>
    sentence_score freq (sents ! i) = sc \<longrightarrow>
      (sc, i, sents ! i) \<in> set (select_top n (score_sentences freq sents)))"
  using sorted_sort_by_score [of scored] sort_by_score_stable [of k scored]
    select_top_prefers_lower_index [of sc j s n freq sents i]
  by blast

theorem selection_tie_break_witness:
  "select_top 2 (score_sentences [(''fox'', 2)] [''a fox'', ''b fox'', ''c fox''])
     = [(2, 0, ''a fox''), (2, 1, ''b fox'')] \<and>
   sentence_score [(''fox'', 2)] ([''a fox'', ''b fox'', ''c fox''] ! 0) = 2 \<and>
   (2, 0, [''a fox'', ''b fox'', ''c fox''] ! 0)
     \<in> set (select_top 2 (score_sentences [(''fox'', 2)] [''a fox'', ''b fox'', ''c fox'']))"
proof -
  have s: "select_top 2 (score_sentences [(''fox'', 2)] [''a fox'', ''b fox'', ''c fox''])
     = [(2, 0, ''a fox''), (2, 1, ''b fox'')]"
    by code_simp
  have m: "(2, 1, ''b fox'')
     \<in> set (select_top 2 (score_sentences [(''fox'', 2)] [''a fox'', ''b fox'', ''c fox'']))"
    unfolding s by simp
  have e: "sentence_score [(''fox'', 2)] ([''a fox'', ''b fox'', ''c fox''] ! 0) = 2"
    by code_simp
  have "(2, 0, [''a fox'', ''b fox'', ''c fox''] ! 0)
     \<in> set (select_top 2 (score_sentences [(''fox'', 2)] [''a fox'', ''b fox'', ''c fox'']))"
    using selection_tie_break [of "[]" 0 2 1 "''b fox''" 2 "[(''fox'', 2)]"
        "[''a fox'', ''b fox'', ''c fox'']" 0] m e
    by blast
  with s e show ?thesis by blast
qed

subsection \<open>Texts without qualifying tokens\<close>

text \<open>
  C3, with the order of the checks in \<open>summarize_text\<close>. When every token is a stopword or
  has at most 2 characters, \<open>summarize_text\<close> returns the "too limited" message if the
  text has a sentence and the "could not extract" message if it has none; when every token
  is a stopword or has at most 3 characters, \<open>generate_questions\<close> returns the three
  fallback questions. Both are total functions: neither raises.
\<close>

theorem no_qualifying_tokens_fallbacks:
  "((\<forall>w\<in>set (tokenize_words text). w \<in> set STOPWORDS \<or> length w \<le> 2) \<longrightarrow>
      summarize_text text n =
        (if split_sentences text = [] then no_text_msg else too_limited_msg)) \<and>
   ((\<forall>w\<in>set (tokenize_words text). w \<in> set STOPWORDS \<or> length w \<le> 3) \<longrightarrow>
      generate_questions text m = fallback_questions)"
proof -
  have s: "summarize_text text n = (if split_sentences text = [] then no_text_msg else too_limited_msg)"
    if "\<forall>w\<in>set (tokenize_words text). w \<in> set STOPWORDS \<or> length w \<le> 2"
  proof -
    have "filter (qualifies 2) (tokenize_words text) = []"
      using that by (auto simp: filter_empty_conv qualifies_def)
    then have "summary_freq text = []" by (simp add: summary_freq_def Counter_def)
    then show ?thesis by (simp add: summarize_text_def Let_def)
  qed
  have q: "generate_questions text m = fallback_questions"
    if "\<forall>w\<in>set (tokenize_words text). w \<in> set STOPWORDS \<or> length w \<le> 3"
  proof -
    have "filter (qualifies 3) (tokenize_words text) = []"
      using that by (auto simp: filter_empty_conv qualifies_def)
    then have "key_terms text = []"
      by (simp add: key_terms_def question_freq_def Counter_def most_common_def)
    then show ?thesis by (simp add: generate_questions_def)
  qed
  from s q show ?thesis by blast
qed

theorem no_qualifying_tokens_fallbacks_witness:
  "tokenize_words ''It is as it was, or it is as it will be.'' =
     [''it'', ''is'', ''as'', ''it'', ''was'', ''or'', ''it'', ''is'', ''as'', ''it'', ''will'', ''be''] \<and>
   split_sentences ''It is as it was, or it is as it will be.'' =
     [''It is as it was, or it is as it will be.''] \<and>
   summarize_text ''It is as it was, or it is as it will be.'' 6 = too_limited_msg \<and>
   generate_questions ''It is as it was, or it is as it will be.'' 6 = fallback_questions"
proof -
  let ?T = "''It is as it was, or it is as it will be.''"
  have t: "tokenize_words ?T =
     [''it'', ''is'', ''as'', ''it'', ''was'', ''or'', ''it'', ''is'', ''as'', ''it'', ''will'', ''be'']"
    by code_simp
  have a: "\<forall>w\<in>set (tokenize_words ?T). w \<in> set STOPWORDS \<or> length w \<le> 2"
    unfolding t by (simp add: STOPWORDS_def)
  then have b: "\<forall>w\<in>set (tokenize_words ?T). w \<in> set STOPWORDS \<or> length w \<le> 3"
    by auto
  have s: "split_sentences ?T = [?T]" by code_simp
  show ?thesis using no_qualifying_tokens_fallbacks [of ?T 6 6] a b s t by simp
qed

text \<open>
  C3 as stated fails on a text without qualifying token and without a sentence of 25
  characters: the check for sentences comes first and its message is returned.
\<close>

theorem summarize_text_too_limited_counterexample:
  "200 \<le> length ''It is as it was. It is as it was. It is as it was. It is as it was. It is as it was. It is as it was. It is as it was. It is as it was. It is as it was. It is as it was. It is as it was. It is as it was.'' \<and>
   filter (qualifies 2) (tokenize_words ''It is as it was. It is as it was. It is as it was. It is as it was. It is as it was. It is as it was. It is as it was. It is as it was. It is as it was. It is as it was. It is as it was. It is as it was.'') = [] \<and>
   summarize_text ''It is as it was. It is as it was. It is as it was. It is as it was. It is as it was. It is as it was. It is as it was. It is as it was. It is as it was. It is as it was. It is as it was. It is as it was.'' 6 = no_text_msg \<and>
   summarize_text ''It is as it was. It is as it was. It is as it was. It is as it was. It is as it was. It is as it was. It is as it was. It is as it was. It is as it was. It is as it was. It is as it was. It is as it was.'' 6 \<noteq> too_limited_msg"
  by code_simp

section \<open>The template cycle of the question generator\<close>

lemma foldl_counter_add_same:
  "foldl counter_add [(w, k)] (replicate n w) = [(w, k + n)]"
  by (induction n arbitrary: k) auto

lemma Counter_replicate: "0 < n \<Longrightarrow> Counter (replicate n w) = [(w, n)]"
  using foldl_counter_add_same [of w 1 "n - 1"]
  by (cases n) (auto simp: Counter_def)

lemma filter_single_word:
  "\<forall>x\<in>set ts. x = w \<or> \<not> P x \<Longrightarrow> P w \<Longrightarrow> filter P ts = replicate (count_list ts w) w"
  by (induction ts) auto

lemma question_loop_eq:
  "question_loop m ts qs k =
     qs @ map (\<lambda>(j, t). format_template (templates ! ((k + j) mod length templates)) t)
              (enumerate 0 (take (nat (m - int (length qs))) ts))"
proof (induction ts arbitrary: qs k)
  case Nil
  then show ?case by simp
next
  case (Cons t ts)
  show ?case
  proof (cases "m \<le> int (length qs)")
    case True
    then show ?thesis by simp
  next
    case False
    then obtain d where d: "nat (m - int (length qs)) = Suc d" 
      by (cases "nat (m - int (length qs))") auto
    then have d': "nat (m - int (length (qs @ [x]))) = d" for x :: string by simp
    have e: "map (\<lambda>(j, t). format_template (templates ! ((k + j) mod length templates)) t)
               (enumerate (Suc 0) xs)
             = map (\<lambda>(j, t). format_template (templates ! ((Suc k + j) mod length templates)) t)
               (enumerate 0 xs)" for xs :: "string list"
      by (simp add: enumerate_Suc_eq [of 0] split_def)
    show ?thesis using False d d' e by (simp add: Cons.IH)
  qed
qed

lemma question_loop_length:
  "length (question_loop m ts [] 0) = min (nat m) (length ts)"
  by (simp add: question_loop_eq)

lemma question_loop_nth:
  "i < length (question_loop m ts [] 0) \<Longrightarrow>
   question_loop m ts [] 0 ! i = format_template (templates ! (i mod 5)) (ts ! i)"
  by (simp add: question_loop_eq nth_enumerate_eq templates_def)

lemma templates_0: "format_template (templates ! 0) w = ''Define: '' @ [CHR 0x27] @ w @ [CHR 0x27] @ ''.''"
  by (simp add: templates_def format_template_def)

text \<open>
  C8. A text whose tokens are one word of at least 5 characters, not a stopword and
  occurring at least 10 times, and stopwords otherwise, gives exactly the question
  \<open>Define: '<word>'.\<close> (for \<open>max_q \<ge> 1\<close>, the default being 6); and whenever questions
  are generated, the \<open>i\<close>-th one is template \<open>i mod 5\<close> filled with the \<open>i\<close>-th key term.
\<close>

theorem generate_questions_single_term:
  "((\<forall>x\<in>set (tokenize_words text). x = w \<or> x \<in> set STOPWORDS) \<and>
    10 \<le> count_list (tokenize_words text) w \<and> 5 \<le> length w \<and> w \<notin> set STOPWORDS \<and>
    1 \<le> max_q \<longrightarrow>
      generate_questions text max_q = [''Define: '' @ [CHR 0x27] @ w @ [CHR 0x27] @ ''.'']) \<and>
   (1 \<le> max_q \<and> key_terms text \<noteq> [] \<longrightarrow>
      length (generate_questions text max_q) = min (nat max_q) (length (key_terms text)) \<and>
      (\<forall>i<length (generate_questions text max_q).
         generate_questions text max_q ! i =
           format_template (templates ! (i mod 5)) (key_terms text ! i)))"
proof -
  have gen: "generate_questions text max_q = question_loop max_q (key_terms text) [] 0"
    if "1 \<le> max_q" "key_terms text \<noteq> []"
  proof -
    have "length (question_loop max_q (key_terms text) [] 0) \<noteq> 0"
      using that by (simp add: question_loop_length)
    then show ?thesis by (auto simp: generate_questions_def Let_def)
  qed
  have one: "generate_questions text max_q = [''Define: '' @ [CHR 0x27] @ w @ [CHR 0x27] @ ''.'']"
    if a: "\<forall>x\<in>set (tokenize_words text). x = w \<or> x \<in> set STOPWORDS"
      and c: "10 \<le> count_list (tokenize_words text) w" and l: "5 \<le> length w"
      and n: "w \<notin> set STOPWORDS" and m: "1 \<le> max_q"
  proof -
    have "filter (qualifies 3) (tokenize_words text)
            = replicate (count_list (tokenize_words text) w) w"
      using a l n by (intro filter_single_word) (auto simp: qualifies_def)
    then have "question_freq text = [(w, count_list (tokenize_words text) w)]"
      using c by (simp add: question_freq_def Counter_replicate)
    then have k: "key_terms text = [w]" by (simp add: key_terms_def most_common_def)
    then have "generate_questions text max_q = question_loop max_q [w] [] 0"
      using gen m by simp
    also have "\<dots> = [format_template (templates ! 0) w]" using m by simp
    finally show ?thesis by (simp add: templates_0)
  qed
  have cyc: "length (generate_questions text max_q) = min (nat max_q) (length (key_terms text)) \<and>
      (\<forall>i<length (generate_questions text max_q).
         generate_questions text max_q ! i =
           format_template (templates ! (i mod 5)) (key_terms text ! i))"
    if "1 \<le> max_q" "key_terms text \<noteq> []"
    using gen [OF that] by (simp add: question_loop_length question_loop_nth)
  from one cyc show ?thesis by blast
qed


theorem generate_questions_single_term_witness:
  "count_list (tokenize_words ''python is the python of python and python or python in python to python by python as python at python'') ''python'' = 10 \<and>
   generate_questions ''python is the python of python and python or python in python to python by python as python at python'' 6 = [''Define: '' @ [CHR 0x27] @ ''python'' @ [CHR 0x27] @ ''.''] \<and>
   key_terms ''python is the python of python and python or python in python to python by python as python at python'' = [''python''] \<and>
   generate_questions ''python is the python of python and python or python in python to python by python as python at python'' 6 ! 0 = format_template (templates ! (0 mod 5)) (key_terms ''python is the python of python and python or python in python to python by python as python at python'' ! 0)"
proof -
  let ?T = "''python is the python of python and python or python in python to python by python as python at python''"
  have t: "tokenize_words ?T = [''python'', ''is'', ''the'', ''python'', ''of'', ''python'', ''and'',
      ''python'', ''or'', ''python'', ''in'', ''python'', ''to'', ''python'', ''by'', ''python'',
      ''as'', ''python'', ''at'', ''python'']"
    by code_simp
  have a: "\<forall>x\<in>set (tokenize_words ?T). x = ''python'' \<or> x \<in> set STOPWORDS"
    unfolding t by (simp add: STOPWORDS_def)
  have c: "count_list (tokenize_words ?T) ''python'' = 10" unfolding t by simp
  have n: "''python'' \<notin> set STOPWORDS" by (simp add: STOPWORDS_def)
  have k: "key_terms ?T = [''python'']" by code_simp
  have g: "generate_questions ?T 6 = [''Define: '' @ [CHR 0x27] @ ''python'' @ [CHR 0x27] @ ''.'']"
    using generate_questions_single_term [of ?T "''python''" 6] a c n by simp
  have "generate_questions ?T 6 ! 0 = format_template (templates ! (0 mod 5)) (key_terms ?T ! 0)"
    using generate_questions_single_term [of ?T "''python''" 6] k g by simp
  with c g k show ?thesis by blast
qed

section \<open>The sentence segmenter\<close>

lemma is_terminal_not_space: "is_terminal c \<Longrightarrow> \<not> isspace c"
  by (auto simp: is_terminal_def isspace_def)

lemma space_isspace: "isspace (CHR '' '')"
  by (simp add: isspace_def)

lemma no_double_collapse: "no_double isspace (collapse_whitespace text)"
  unfolding collapse_whitespace_def
  by (intro no_double_strip no_double_re_sub_runs) (simp_all add: space_isspace)

lemma trimmed_collapse: "trimmed (collapse_whitespace text)"
  by (simp add: collapse_whitespace_def trimmed_strip)

lemma only_space_re_sub:
  "c \<in> set (re_sub_runs 1 isspace '' '' s) \<Longrightarrow> isspace c \<Longrightarrow> c = CHR '' ''"
proof (induction "1::nat" isspace "'' ''" s rule: re_sub_runs.induct)
  case 1
  then show ?case by simp
next
  case (2 d ds)
  show ?case
  proof (cases "isspace d")
    case True
    with 2 show ?thesis by auto
  next
    case False
    with 2 show ?thesis by auto
  qed
qed

lemma only_space_collapse:
  "c \<in> set (collapse_whitespace text) \<Longrightarrow> isspace c \<Longrightarrow> c = CHR '' ''"
  using only_space_re_sub set_strip unfolding collapse_whitespace_def by blast

text \<open>Scanning a stretch without boundary.\<close>

lemma re_split_go_no_boundary:
  "no_boundary u \<Longrightarrow> u \<noteq> [] \<Longrightarrow> \<not> (prev \<and> isspace (hd u)) \<Longrightarrow>
   re_split_go prev acc (u @ v) = re_split_go (is_terminal (last u)) (acc @ u) v"
proof (induction u arbitrary: prev acc)
  case Nil
  then show ?case by simp
next
  case (Cons c cs)
  show ?case
  proof (cases cs)
    case Nil
    with Cons.prems show ?thesis by auto
  next
    case (Cons d ds)
    have nb: "no_boundary cs" and pair: "\<not> (is_terminal c \<and> isspace d)"
      using Cons.prems(1) Cons by (simp_all add: no_boundary_def)
    have "re_split_go prev acc ((c # cs) @ v) = re_split_go (is_terminal c) (acc @ [c]) (cs @ v)"
      using Cons.prems(3) by auto
    also have "\<dots> = re_split_go (is_terminal (last cs)) ((acc @ [c]) @ cs) v"
      using nb pair Cons by (intro Cons.IH) auto
    finally show ?thesis using Cons by simp
  qed
qed

text \<open>Scanning up to a boundary: the fragments before it are emitted.\<close>

lemma re_split_go_boundary:
  "is_terminal c \<Longrightarrow> isspace b \<Longrightarrow> rest = [] \<or> \<not> isspace (hd rest) \<Longrightarrow>
   \<exists>xs. re_split_go prev acc (p @ c # b # rest) = xs @ re_split_go False [] rest"
proof (induction "length p" arbitrary: p prev acc rule: less_induct)
  case less
  have dw: "dropWhile isspace rest = rest" using less.prems(3) by (cases rest) auto
  show ?case
  proof (cases p)
    case Nil
    have "\<not> isspace c" using less.prems(1) by (rule is_terminal_not_space)
    then have "re_split_go prev acc (p @ c # b # rest) = (acc @ [c]) # re_split_go False [] rest"
      using Nil less.prems dw by simp
    then show ?thesis by (metis append_Cons append_Nil)
  next
    case (Cons d ds)
    show ?thesis
    proof (cases "prev \<and> isspace d")
      case True
      have nc: "\<not> isspace c" using less.prems(1) by (rule is_terminal_not_space)
      have "dropWhile isspace (ds @ c # b # rest) = dropWhile isspace ds @ c # b # rest"
        using nc by (induction ds) auto
      then have e: "re_split_go prev acc (p @ c # b # rest)
          = acc # re_split_go False [] (dropWhile isspace ds @ c # b # rest)"
        using True Cons by simp
      have "length (dropWhile isspace ds) < length p"
        using Cons length_dropWhile_le [of isspace ds] by simp
      then obtain xs where "re_split_go False [] (dropWhile isspace ds @ c # b # rest)
          = xs @ re_split_go False [] rest"
        using less.hyps less.prems by blast
      with e show ?thesis by (metis append_Cons)
    next
      case False
      then have e: "re_split_go prev acc (p @ c # b # rest)
          = re_split_go (is_terminal d) (acc @ [d]) (ds @ c # b # rest)"
        using Cons by auto
      have "length ds < length p" using Cons by simp
      then obtain xs where "re_split_go (is_terminal d) (acc @ [d]) (ds @ c # b # rest)
          = xs @ re_split_go False [] rest"
        using less.hyps less.prems by blast
      with e show ?thesis by metis
    qed
  qed
qed

lemma re_split_go_end:
  "post = [] \<or> (prev \<and> isspace (hd post)) \<Longrightarrow> acc \<in> set (re_split_go prev acc post)"
  by (cases post) auto

lemma no_double_hd_after:
  "no_double C (p @ [b] @ s) \<Longrightarrow> C b \<Longrightarrow> s \<noteq> [] \<Longrightarrow> \<not> C (hd s)"
  by (cases s) (auto simp: no_double_def successively_append_iff)

lemma sentence_in_fragments:
  assumes s: "sentence_of t s" and nd: "no_double isspace t" and tr: "trimmed t"
  shows "s \<in> set (re_split_sentences t) \<and> trimmed s"
proof -
  from s obtain pre post where ne: "s \<noteq> []" and nb: "no_boundary s"
    and t: "t = pre @ s @ post"
    and pre: "pre = [] \<or> (\<exists>p c. pre = p @ [c, CHR '' ''] \<and> is_terminal c)"
    and post: "post = [] \<or> (is_terminal (last s) \<and> hd post = CHR '' '')"
    unfolding sentence_of_def by blast
  have hd_s: "\<not> isspace (hd s)"
  proof (cases "pre = []")
    case True
    then have "hd t = hd s" using t ne by simp
    moreover have "t \<noteq> []" using t ne by simp
    ultimately show ?thesis using tr by (simp add: trimmed_def)
  next
    case False
    with pre obtain p c where "pre = p @ [c, CHR '' '']" by blast
    then have "t = (p @ [c]) @ [CHR '' ''] @ (s @ post)" using t by simp
    then have "no_double isspace ((p @ [c]) @ [CHR '' ''] @ (s @ post))" using nd by simp
    then have "\<not> isspace (hd (s @ post))"
      using ne by (intro no_double_hd_after [of isspace "p @ [c]" "CHR '' ''"]) (simp_all add: space_isspace)
    then show ?thesis using ne by simp
  qed
  have last_s: "\<not> isspace (last s)"
  proof (cases "post = []")
    case True
    then have "last t = last s" using t ne by simp
    moreover have "t \<noteq> []" using t ne by simp
    ultimately show ?thesis using tr by (simp add: trimmed_def)
  next
    case False
    with post show ?thesis by (simp add: is_terminal_not_space)
  qed
  have tail: "s \<in> set (re_split_go False [] (s @ post))"
  proof -
    have "re_split_go False [] (s @ post) = re_split_go (is_terminal (last s)) ([] @ s) post"
      using nb ne by (intro re_split_go_no_boundary) simp_all
    moreover have "s \<in> set (re_split_go (is_terminal (last s)) s post)"
      using post by (intro re_split_go_end) (auto simp: space_isspace)
    ultimately show ?thesis by simp
  qed
  have "s \<in> set (re_split_go False [] t)"
  proof (cases "pre = []")
    case True
    with tail t show ?thesis by simp
  next
    case False
    with pre obtain p c where p: "pre = p @ [c, CHR '' '']" and c: "is_terminal c" by blast
    have "\<exists>xs. re_split_go False [] (p @ c # CHR '' '' # (s @ post))
        = xs @ re_split_go False [] (s @ post)"
      using c hd_s ne by (intro re_split_go_boundary) (simp_all add: space_isspace)
    then obtain xs where "re_split_go False [] t = xs @ re_split_go False [] (s @ post)"
      using t p by auto
    with tail show ?thesis by simp
  qed
  then show ?thesis using hd_s last_s by (simp add: re_split_sentences_def trimmed_def)
qed


text \<open>Every fragment of a trimmed text is trimmed.\<close>

lemma last_dropWhile_eq: "dropWhile P xs \<noteq> [] \<Longrightarrow> last (dropWhile P xs) = last xs"
  by (metis last_appendR takeWhile_dropWhile_id)

lemma re_split_go_trimmed:
  "acc = [] \<or> \<not> isspace (hd acc) \<Longrightarrow>
   (acc = [] \<longrightarrow> s = [] \<or> \<not> isspace (hd s)) \<Longrightarrow>
   (prev \<longrightarrow> acc \<noteq> [] \<and> \<not> isspace (last acc)) \<Longrightarrow>
   (acc @ s \<noteq> [] \<longrightarrow> \<not> isspace (last (acc @ s))) \<Longrightarrow>
   f \<in> set (re_split_go prev acc s) \<Longrightarrow> trimmed f"
proof (induction prev acc s rule: re_split_go.induct)
  case (1 prev acc)
  then show ?case by (auto simp: trimmed_def)
next
  case (2 prev acc c cs)
  show ?case
  proof (cases "prev \<and> isspace c")
    case True
    let ?d = "dropWhile isspace cs"
    from 2(7) True have "f = acc \<or> f \<in> set (re_split_go False [] ?d)" by simp
    then show ?thesis
    proof
      assume "f = acc"
      then show ?thesis using 2(3) 2(5) True by (auto simp: trimmed_def)
    next
      assume f: "f \<in> set (re_split_go False [] ?d)"
      have a2: "[] = [] \<longrightarrow> ?d = [] \<or> \<not> isspace (hd ?d)" using hd_dropWhile by blast
      have a4: "[] @ ?d \<noteq> [] \<longrightarrow> \<not> isspace (last ([] @ ?d))"
      proof
        assume ne: "[] @ ?d \<noteq> []"
        then have "last ?d = last cs" by (simp add: last_dropWhile_eq del: dropWhile_eq_Nil_conv)
        moreover have "cs \<noteq> []" using ne by auto
        ultimately show "\<not> isspace (last ([] @ ?d))" using 2(6) by simp
      qed
      show ?thesis using True a2 a4 f by (intro 2(1)) simp_all
    qed
  next
    case False
    have f: "f \<in> set (re_split_go (is_terminal c) (acc @ [c]) cs)" using 2(7) False by auto
    have a1: "acc @ [c] = [] \<or> \<not> isspace (hd (acc @ [c]))"
      using 2(3) 2(4) by (cases acc) auto
    have a3: "is_terminal c \<longrightarrow> acc @ [c] \<noteq> [] \<and> \<not> isspace (last (acc @ [c]))"
      by (simp add: is_terminal_not_space)
    have a4: "(acc @ [c]) @ cs \<noteq> [] \<longrightarrow> \<not> isspace (last ((acc @ [c]) @ cs))"
      using 2(6) by simp
    show ?thesis using False a1 a3 a4 f by (intro 2(2)) simp_all
  qed
qed

lemma fragments_trimmed:
  "trimmed t \<Longrightarrow> f \<in> set (re_split_sentences t) \<Longrightarrow> trimmed f"
  unfolding re_split_sentences_def
  by (rule re_split_go_trimmed [of "[]" t False]) (auto simp: trimmed_def)

text \<open>Joined by single spaces, the fragments give the collapsed text back.\<close>

lemma re_split_go_not_Nil: "re_split_go prev acc s \<noteq> []"
  by (induction prev acc s rule: re_split_go.induct) auto

lemma join_Cons: "xs \<noteq> [] \<Longrightarrow> join sep (x # xs) = x @ sep @ join sep xs"
  by (cases xs) auto

lemma join_re_split_go:
  "no_double isspace s \<Longrightarrow> (\<forall>c\<in>set s. isspace c \<longrightarrow> c = CHR '' '') \<Longrightarrow>
   join '' '' (re_split_go prev acc s) = acc @ s"
proof (induction prev acc s rule: re_split_go.induct)
  case (1 prev acc)
  then show ?case by simp
next
  case (2 prev acc c cs)
  have nd: "no_double isspace cs" using 2(3) no_double_suffix [of isspace "[c]" cs] by simp
  show ?case
  proof (cases "prev \<and> isspace c")
    case True
    have c: "c = CHR '' ''" using True 2(4) by simp
    have "cs = [] \<or> \<not> isspace (hd cs)"
      using 2(3) True by (cases cs) (auto simp: no_double_def)
    then have dw: "dropWhile isspace cs = cs" by (cases cs) auto
    have "join '' '' (re_split_go False [] cs) = [] @ cs"
      using 2(1) True nd 2(4) dw by simp
    then show ?thesis using True dw c by (simp add: join_Cons re_split_go_not_Nil)
  next
    case False
    have "join '' '' (re_split_go (is_terminal c) (acc @ [c]) cs) = (acc @ [c]) @ cs"
      using 2(2) False nd 2(4) by simp
    then show ?thesis using False by auto
  qed
qed

lemma join_fragments:
  "join '' '' (re_split_sentences (collapse_whitespace text)) = collapse_whitespace text"
  unfolding re_split_sentences_def
  using join_re_split_go [of "collapse_whitespace text" False "[]"]
    no_double_collapse [of "text"] only_space_collapse [of _ "text"]
  by auto

lemma split_sentences_filter:
  "split_sentences text
     = filter (\<lambda>f. 25 \<le> length f) (re_split_sentences (collapse_whitespace text))"
proof -
  let ?t = "collapse_whitespace text"
  have tr: "strip f = f" if "f \<in> set (re_split_sentences ?t)" for f
    using that fragments_trimmed [OF trimmed_collapse] strip_trimmed by blast
  have "map strip (filter (\<lambda>s. 25 \<le> length (strip s)) (re_split_sentences ?t))
      = filter (\<lambda>f. 25 \<le> length f) (re_split_sentences ?t)"
  proof -
    have "filter (\<lambda>s. 25 \<le> length (strip s)) (re_split_sentences ?t)
        = filter (\<lambda>f. 25 \<le> length f) (re_split_sentences ?t)"
      using tr by (intro filter_cong) simp_all
    moreover have "map strip (filter (\<lambda>f. 25 \<le> length f) (re_split_sentences ?t))
        = filter (\<lambda>f. 25 \<le> length f) (re_split_sentences ?t)"
      using tr by (intro map_idI) simp
    ultimately show ?thesis by simp
  qed
  moreover have "filter (\<lambda>f. 25 \<le> length f) (re_split_sentences ?t) = []" if "?t = []"
    using that by (simp add: re_split_sentences_def)
  ultimately show ?thesis by (simp add: split_sentences_def Let_def)
qed

text \<open>Every non-empty fragment is a sentence of the text.\<close>

lemma sentence_ofI:
  "s \<noteq> [] \<Longrightarrow> no_boundary s \<Longrightarrow> t = pre @ s @ post \<Longrightarrow>
   pre = [] \<or> (\<exists>p c. pre = p @ [c, CHR '' ''] \<and> is_terminal c) \<Longrightarrow>
   post = [] \<or> (is_terminal (last s) \<and> hd post = CHR '' '') \<Longrightarrow> sentence_of t s"
  unfolding sentence_of_def by blast

lemma re_split_go_sentences:
  "t = dn @ acc @ s \<Longrightarrow>
   dn = [] \<or> (\<exists>p c. dn = p @ [c, CHR '' ''] \<and> is_terminal c) \<Longrightarrow>
   no_boundary acc \<Longrightarrow> prev = (acc \<noteq> [] \<and> is_terminal (last acc)) \<Longrightarrow>
   no_double isspace s \<Longrightarrow> (\<forall>c\<in>set s. isspace c \<longrightarrow> c = CHR '' '') \<Longrightarrow>
   f \<in> set (re_split_go prev acc s) \<Longrightarrow> f \<noteq> [] \<Longrightarrow> sentence_of t f"
proof (induction prev acc s arbitrary: dn rule: re_split_go.induct)
  case (1 prev acc)
  then have f: "f = acc" by simp
  show ?case
  proof (rule sentence_ofI [where pre = dn and post = "[]"])
    show "f \<noteq> []" by fact
    show "no_boundary f" using f 1(3) by simp
    show "t = dn @ f @ []" using f 1(1) by simp
    show "dn = [] \<or> (\<exists>p c. dn = p @ [c, CHR '' ''] \<and> is_terminal c)" by fact
  qed simp
next
  case (2 prev acc c cs)
  have nd: "no_double isspace cs" using 2(7) no_double_suffix [of isspace "[c]" cs] by simp
  have os: "\<forall>c\<in>set cs. isspace c \<longrightarrow> c = CHR '' ''" using 2(8) by simp
  show ?case
  proof (cases "prev \<and> isspace c")
    case True
    have c: "c = CHR '' ''" using True 2(8) by simp
    have acc: "acc \<noteq> []" "is_terminal (last acc)" using True 2(6) by simp_all
    have "cs = [] \<or> \<not> isspace (hd cs)"
      using 2(7) True by (cases cs) (auto simp: no_double_def)
    then have dw: "dropWhile isspace cs = cs" by (cases cs) auto
    from 2(9) True dw have "f = acc \<or> f \<in> set (re_split_go False [] cs)" by simp
    then show ?thesis
    proof
      assume f: "f = acc"
      show ?thesis
      proof (rule sentence_ofI [where pre = dn and post = "c # cs"])
        show "f \<noteq> []" by fact
        show "no_boundary f" using f 2(5) by simp
        show "t = dn @ f @ c # cs" using f 2(3) by simp
        show "dn = [] \<or> (\<exists>p c. dn = p @ [c, CHR '' ''] \<and> is_terminal c)" by fact
        show "c # cs = [] \<or> is_terminal (last f) \<and> hd (c # cs) = CHR '' ''"
          using f acc c by simp
      qed
    next
      assume f: "f \<in> set (re_split_go False [] cs)"
      have t: "t = (dn @ acc @ [c]) @ [] @ dropWhile isspace cs" using 2(3) dw by simp
      have "dn @ acc @ [c] = (dn @ butlast acc) @ [last acc, CHR '' '']"
        using acc(1) c by simp
      then have d: "dn @ acc @ [c] = [] \<or>
          (\<exists>p c'. dn @ acc @ [c] = p @ [c', CHR '' ''] \<and> is_terminal c')"
        using acc(2) by blast
      show ?thesis
        using 2(1) [OF True t d] f nd os dw 2(10) by (simp add: no_boundary_def)
    qed
  next
    case False
    have f: "f \<in> set (re_split_go (is_terminal c) (acc @ [c]) cs)" using 2(9) False by auto
    have t: "t = dn @ (acc @ [c]) @ cs" using 2(3) by simp
    have nb: "no_boundary (acc @ [c])"
      using 2(5) 2(6) False by (auto simp: no_boundary_def successively_append_iff)
    have pv: "is_terminal c = (acc @ [c] \<noteq> [] \<and> is_terminal (last (acc @ [c])))" by simp
    show ?thesis using 2(2) [OF False t 2(4) nb pv nd os f 2(10)] .
  qed
qed

lemma fragments_sentences:
  "f \<in> set (re_split_sentences (collapse_whitespace text)) \<Longrightarrow> f \<noteq> [] \<Longrightarrow>
   sentence_of (collapse_whitespace text) f"
  unfolding re_split_sentences_def
  using re_split_go_sentences [of "collapse_whitespace text" "[]" "[]" "collapse_whitespace text" False f]
    no_double_collapse [of "text"] only_space_collapse [of _ "text"]
  by (auto simp: no_boundary_def)

text \<open>
  C6, with the sentences read on the whitespace-collapsed text. \<open>split_sentences\<close>
  returns exactly the sentences of at least 25 characters of \<open>collapse_whitespace text\<close>,
  so a text whose collapsed form has such a sentence gives a non-empty result; every
  returned element has at least 25 characters and no whitespace at either end; and the
  elements are in document order: they are the fragments of at least 25 characters, in
  the order of the fragments, which joined by single spaces are the collapsed text.
\<close>

theorem split_sentences_long_sentences:
  "(s \<in> set (split_sentences text) \<longleftrightarrow>
      sentence_of (collapse_whitespace text) s \<and> 25 \<le> length s) \<and>
   (sentence_of (collapse_whitespace text) s \<and> 25 \<le> length s \<longrightarrow>
      split_sentences text \<noteq> []) \<and>
   (\<forall>x\<in>set (split_sentences text).
      25 \<le> length x \<and> \<not> isspace (hd x) \<and> \<not> isspace (last x)) \<and>
   split_sentences text
     = filter (\<lambda>f. 25 \<le> length f) (re_split_sentences (collapse_whitespace text)) \<and>
   join '' '' (re_split_sentences (collapse_whitespace text)) = collapse_whitespace text"
proof -
  let ?t = "collapse_whitespace text"
  have a: "s \<in> set (split_sentences text)" if "sentence_of ?t s" "25 \<le> length s"
  proof -
    have "s \<in> set (re_split_sentences ?t)"
      using sentence_in_fragments [OF that(1) no_double_collapse trimmed_collapse] by simp
    then show ?thesis using that(2) by (simp add: split_sentences_filter)
  qed
  have c: "sentence_of ?t s \<and> 25 \<le> length s" if "s \<in> set (split_sentences text)"
  proof -
    have x: "s \<in> set (re_split_sentences ?t)" and l: "25 \<le> length s"
      using that by (simp_all add: split_sentences_filter)
    moreover have "s \<noteq> []" using l by auto
    ultimately show ?thesis using fragments_sentences by blast
  qed
  have b: "25 \<le> length x \<and> \<not> isspace (hd x) \<and> \<not> isspace (last x)"
    if "x \<in> set (split_sentences text)" for x
  proof -
    have x: "x \<in> set (re_split_sentences ?t)" and l: "25 \<le> length x"
      using that by (simp_all add: split_sentences_filter)
    have "trimmed x" using fragments_trimmed [OF trimmed_collapse x] .
    moreover have "x \<noteq> []" using l by auto
    ultimately show ?thesis using l by (simp add: trimmed_def)
  qed
  have n: "split_sentences text \<noteq> []" if "sentence_of ?t s" "25 \<le> length s"
    using a [OF that] by auto
  from a c n b split_sentences_filter [of "text"] join_fragments [of "text"] show ?thesis
    by blast
qed

theorem split_sentences_long_sentences_witness:
  "collapse_whitespace (''Hi there.  The quick brown fox jumps.'' @ [LF] @ ''Bye now.'')
     = ''Hi there. The quick brown fox jumps. Bye now.'' \<and>
   25 \<le> length ''The quick brown fox jumps.'' \<and>
   split_sentences (''Hi there.  The quick brown fox jumps.'' @ [LF] @ ''Bye now.'')
     = [''The quick brown fox jumps.''] \<and>
   \<not> isspace (hd ''The quick brown fox jumps.'') \<and>
   \<not> isspace (last ''The quick brown fox jumps.'')"
proof -
  let ?T = "''Hi there.  The quick brown fox jumps.'' @ [LF] @ ''Bye now.''"
  let ?s = "''The quick brown fox jumps.''"
  have t: "collapse_whitespace ?T = ''Hi there. The quick brown fox jumps. Bye now.''"
    by code_simp
  have nb: "no_boundary ?s" by code_simp
  have d: "''Hi there. The quick brown fox jumps. Bye now.'' = ''Hi there. '' @ ?s @ '' Bye now.''"
    by simp
  have pre: "''Hi there. '' = ''Hi there'' @ [CHR ''.'', CHR '' ''] \<and> is_terminal (CHR ''.'')"
    by (simp add: is_terminal_def)
  have post: "is_terminal (last ?s) \<and> hd '' Bye now.'' = CHR '' ''"
    by (simp add: is_terminal_def)
  have so: "sentence_of (collapse_whitespace ?T) ?s"
    unfolding t sentence_of_def using nb d pre post by blast
  have l: "25 \<le> length ?s" by simp
  have m: "?s \<in> set (split_sentences ?T)"
    using split_sentences_long_sentences [of ?s ?T] so l by blast
  have e: "split_sentences ?T = [?s]" by code_simp
  have "\<not> isspace (hd ?s) \<and> \<not> isspace (last ?s)"
    using split_sentences_long_sentences [of ?s ?T] m by blast
  with t l e show ?thesis by blast
qed

text \<open>
  C6 as stated, with the sentence measured in the clean text, fails: \<open>clean_text\<close> keeps
  a space followed by a newline, \<open>split_sentences\<close> collapses the two to one space before
  it tests the length, and a sentence of 25 characters of the clean text is dropped as a
  fragment of 24.
\<close>

theorem split_sentences_clean_text_counterexample:
  "clean_text (''It is as it was. It is as it was. It is as it was. It is as it was. It is as it was. It is as it was. It is as it was. It is as it was. It is as it was. It is as it was. It is as it was. It is as it was. The quick brown '' @ [LF] @ ''fox ran.'')
     = ''It is as it was. It is as it was. It is as it was. It is as it was. It is as it was. It is as it was. It is as it was. It is as it was. It is as it was. It is as it was. It is as it was. It is as it was. The quick brown '' @ [LF] @ ''fox ran.'' \<and>
   200 \<le> length (''It is as it was. It is as it was. It is as it was. It is as it was. It is as it was. It is as it was. It is as it was. It is as it was. It is as it was. It is as it was. It is as it was. It is as it was. The quick brown '' @ [LF] @ ''fox ran.'') \<and>
   sentence_of (''It is as it was. It is as it was. It is as it was. It is as it was. It is as it was. It is as it was. It is as it was. It is as it was. It is as it was. It is as it was. It is as it was. It is as it was. The quick brown '' @ [LF] @ ''fox ran.'')
     (''The quick brown '' @ [LF] @ ''fox ran.'') \<and>
   25 \<le> length (''The quick brown '' @ [LF] @ ''fox ran.'') \<and>
   split_sentences (''It is as it was. It is as it was. It is as it was. It is as it was. It is as it was. It is as it was. It is as it was. It is as it was. It is as it was. It is as it was. It is as it was. It is as it was. The quick brown '' @ [LF] @ ''fox ran.'') = []"
proof -
  let ?s = "''The quick brown '' @ [LF] @ ''fox ran.''"
  let ?T = "''It is as it was. It is as it was. It is as it was. It is as it was. It is as it was. It is as it was. It is as it was. It is as it was. It is as it was. It is as it was. It is as it was. It is as it was. The quick brown '' @ [LF] @ ''fox ran.''"
  have c: "clean_text ?T = ?T" by code_simp
  have l: "200 \<le> length ?T" by simp
  have so: "sentence_of ?T ?s"
  proof (rule sentence_ofI [where pre = "''It is as it was. It is as it was. It is as it was. It is as it was. It is as it was. It is as it was. It is as it was. It is as it was. It is as it was. It is as it was. It is as it was. It is as it was. ''" and post = "[]"])
    show "?s \<noteq> []" by simp
    show "no_boundary ?s" by code_simp
    show "?T = ''It is as it was. It is as it was. It is as it was. It is as it was. It is as it was. It is as it was. It is as it was. It is as it was. It is as it was. It is as it was. It is as it was. It is as it was. '' @ ?s @ []" by simp
    have "''It is as it was. It is as it was. It is as it was. It is as it was. It is as it was. It is as it was. It is as it was. It is as it was. It is as it was. It is as it was. It is as it was. It is as it was. '' = ''It is as it was. It is as it was. It is as it was. It is as it was. It is as it was. It is as it was. It is as it was. It is as it was. It is as it was. It is as it was. It is as it was. It is as it was'' @ [CHR ''.'', CHR '' ''] \<and> is_terminal (CHR ''.'')"
      by (simp add: is_terminal_def)
    then show "''It is as it was. It is as it was. It is as it was. It is as it was. It is as it was. It is as it was. It is as it was. It is as it was. It is as it was. It is as it was. It is as it was. It is as it was. '' = [] \<or>
        (\<exists>p c. ''It is as it was. It is as it was. It is as it was. It is as it was. It is as it was. It is as it was. It is as it was. It is as it was. It is as it was. It is as it was. It is as it was. It is as it was. '' = p @ [c, CHR '' ''] \<and> is_terminal c)"
      by blast
  qed simp
  have n: "25 \<le> length ?s" by simp
  have e: "split_sentences ?T = []" by code_simp
  from c l so n e show ?thesis by blast
qed

end
